theory Spec2Isabelle
  imports Main "HOL-Library.Char_ord" "HOL-Library.List_Lexorder"
begin

section \<open>Pre-processing of bAbI tasks: a model of \<^verbatim>\<open>prep_datasets.py\<close>\<close>

text \<open>
  The module is Python 2 era code (\<^verbatim>\<open>from __future__ import print_function\<close>,
  \<^verbatim>\<open>tf.python_io\<close>, \<^verbatim>\<open>map\<close> used as a list). The model follows CPython 2.7:
  \<^item> a decoded line is a \<open>string\<close>; a \<open>char\<close> stands for the code point \<open>of_char c\<close>,
    so the model covers text whose code points are below 256 (the bAbI files are ASCII);
    decoding itself (\<^verbatim>\<open>line.decode('utf-8')\<close>) is not part of the model;
  \<^item> every exception the code can raise is a value of \<open>error\<close>, and a function that can
    raise returns \<open>error + 'a\<close>;
  \<^item> Python integers are \<open>int\<close>, lengths are \<open>nat\<close>.
\<close>

datatype error = ValueError | IndexError | KeyError | AssertionError

subsection \<open>Characters and the string methods the module calls\<close>

text \<open>\<^verbatim>\<open>\w\<close> of a pattern compiled without flags: ASCII letters, digits and underscore.\<close>

definition is_word :: "char \<Rightarrow> bool" where
  "is_word c \<longleftrightarrow>
     (let n = (of_char c :: nat) in
      (48 \<le> n \<and> n \<le> 57) \<or> (65 \<le> n \<and> n \<le> 90) \<or> n = 95 \<or> (97 \<le> n \<and> n \<le> 122))"

text \<open>Whitespace of \<^verbatim>\<open>unicode.strip()\<close> and \<^verbatim>\<open>unicode.split()\<close> below code point 256.\<close>

definition is_space :: "char \<Rightarrow> bool" where
  "is_space c \<longleftrightarrow>
     (let n = (of_char c :: nat) in
      (9 \<le> n \<and> n \<le> 13) \<or> (28 \<le> n \<and> n \<le> 32) \<or> n = 133 \<or> n = 160)"

definition is_digit :: "char \<Rightarrow> bool" where
  "is_digit c \<longleftrightarrow> (let n = (of_char c :: nat) in 48 \<le> n \<and> n \<le> 57)"

text \<open>\<^verbatim>\<open>s.strip()\<close>\<close>

definition strip :: "string \<Rightarrow> string" where
  "strip s = rev (dropWhile is_space (rev (dropWhile is_space s)))"

text \<open>\<^verbatim>\<open>s.split(' ', 1)\<close>: at most one split, at the first space.\<close>

definition split_space1 :: "string \<Rightarrow> string list" where
  "split_space1 s =
     (case dropWhile (\<lambda>c. c \<noteq> CHR '' '') s of
        [] \<Rightarrow> [s]
      | _ # rest \<Rightarrow> [takeWhile (\<lambda>c. c \<noteq> CHR '' '') s, rest])"

text \<open>\<^verbatim>\<open>s.split(sep)\<close> for a one-character separator: every occurrence splits.\<close>

fun split_on :: "char \<Rightarrow> string \<Rightarrow> string list" where
  "split_on sep [] = [[]]"
| "split_on sep (c # cs) =
     (if c = sep then [] # split_on sep cs
      else (case split_on sep cs of
              [] \<Rightarrow> [[c]]
            | r # rs \<Rightarrow> (c # r) # rs))"

text \<open>\<^verbatim>\<open>s.split()\<close>: the maximal runs of characters that are not whitespace; \<open>w\<close> is the
  run being read.\<close>

fun split_ws_from :: "string \<Rightarrow> string \<Rightarrow> string list" where
  "split_ws_from w [] = (if w = [] then [] else [w])"
| "split_ws_from w (c # cs) =
     (if is_space c then (if w = [] then split_ws_from [] cs else w # split_ws_from [] cs)
      else split_ws_from (w @ [c]) cs)"

definition split_ws :: "string \<Rightarrow> string list" where
  "split_ws s = split_ws_from [] s"

text \<open>\<^verbatim>\<open>int(s)\<close> on a string: surrounding whitespace, an optional sign, then one or more
  decimal digits; anything else raises \<^verbatim>\<open>ValueError\<close>.\<close>

definition digit_val :: "char \<Rightarrow> int" where
  "digit_val c = int (of_char c) - 48"

definition digits_int :: "string \<Rightarrow> error + int" where
  "digits_int ds =
     (if ds \<noteq> [] \<and> list_all is_digit ds
      then Inr (foldl (\<lambda>a d. 10 * a + digit_val d) 0 ds)
      else Inl ValueError)"

definition py_int :: "string \<Rightarrow> error + int" where
  "py_int s =
     (case strip s of
        [] \<Rightarrow> Inl ValueError
      | c # cs \<Rightarrow>
          if c = CHR ''-'' then (case digits_int cs of Inl e \<Rightarrow> Inl e | Inr n \<Rightarrow> Inr (- n))
          else if c = CHR ''+'' then digits_int cs
          else digits_int (c # cs))"

text \<open>\<^verbatim>\<open>xs[i]\<close>: a negative index counts from the end, an index out of range raises
  \<^verbatim>\<open>IndexError\<close>.\<close>

definition py_index :: "'a list \<Rightarrow> int \<Rightarrow> error + 'a" where
  "py_index xs i =
     (if 0 \<le> i \<and> i < int (length xs) then Inr (xs ! nat i)
      else if i < 0 \<and> - int (length xs) \<le> i then Inr (xs ! nat (int (length xs) + i))
      else Inl IndexError)"

text \<open>A comprehension or a loop whose body can raise: the first exception ends it.\<close>

fun mapE :: "('a \<Rightarrow> error + 'b) \<Rightarrow> 'a list \<Rightarrow> error + 'b list" where
  "mapE f [] = Inr []"
| "mapE f (x # xs) =
     (case f x of
        Inl e \<Rightarrow> Inl e
      | Inr y \<Rightarrow> (case mapE f xs of Inl e \<Rightarrow> Inl e | Inr ys \<Rightarrow> Inr (y # ys)))"

subsection \<open>Tokenizer\<close>

text \<open>
  \<^verbatim>\<open>re.split(SPLIT_RE, sentence)\<close> with \<^verbatim>\<open>SPLIT_RE = re.compile('(\W+)?')\<close>, as CPython 2.7
  runs it. At a non-word character the pattern matches the whole run of non-word
  characters that starts there: the text since the last match is emitted, then the run
  itself, since it is the pattern's capturing group. At a word character the pattern
  matches the empty string; \<^verbatim>\<open>split\<close> does not split at an empty match and moves one
  character on. The text after the last match is emitted at the end, also when empty.
  \<open>seg\<close> is the text read since the last match. (From Python 3.7 on, \<^verbatim>\<open>split\<close> splits
  at empty matches too and returns \<^verbatim>\<open>None\<close> for the group that took no part, on which
  \<^verbatim>\<open>strip\<close> raises for every input; the module is older than that and is modelled as it
  runs on the interpreters it was written for.)
\<close>

function re_split :: "string \<Rightarrow> string \<Rightarrow> string list" where
  "re_split seg [] = [seg]"
| "re_split seg (c # cs) =
     (if is_word c then re_split (seg @ [c]) cs
      else seg # takeWhile (\<lambda>x. \<not> is_word x) (c # cs)
               # re_split [] (dropWhile (\<lambda>x. \<not> is_word x) (c # cs)))"
  by pat_completeness auto
termination
  by (relation "measure (\<lambda>(seg, s). length s)")
     (auto simp: less_Suc_eq_le length_dropWhile_le)

text \<open>\<^verbatim>\<open>[token.strip() for token in re.split(SPLIT_RE, sentence) if token.strip()]\<close>\<close>

definition tokenize :: "string \<Rightarrow> string list" where
  "tokenize sentence =
     map strip (filter (\<lambda>token. strip token \<noteq> []) (re_split [] sentence))"

subsection \<open>Story parser\<close>

text \<open>
  The story buffer holds tokenized sentences and, after each question, the empty string
  \<^verbatim>\<open>''\<close> that \<^verbatim>\<open>story.append('')\<close> adds. \<open>truthy\<close> is Python's truth value of an entry,
  \<open>tokens_of\<close> what iterating over it yields.
\<close>

datatype entry = Sentence "string list" | Placeholder

fun truthy :: "entry \<Rightarrow> bool" where
  "truthy (Sentence ts) = (ts \<noteq> [])"
| "truthy Placeholder = False"

fun tokens_of :: "entry \<Rightarrow> string list" where
  "tokens_of (Sentence ts) = ts"
| "tokens_of Placeholder = []"

type_synonym example = "entry list \<times> string list \<times> string"

text \<open>\<^verbatim>\<open>supporting = map(int, supporting.split())\<close>, then
  \<^verbatim>\<open>[story[i - 1] for i in supporting]\<close>.\<close>

definition select_supporting :: "entry list \<Rightarrow> string \<Rightarrow> error + entry list" where
  "select_supporting story supporting =
     (case mapE py_int (split_ws supporting) of
        Inl e \<Rightarrow> Inl e
      | Inr ids \<Rightarrow> mapE (\<lambda>i. py_index story (i - 1)) ids)"

text \<open>One round of the loop over \<open>lines\<close>; the state is \<open>(stories, story)\<close>.\<close>

definition parse_line ::
  "bool \<Rightarrow> example list \<times> entry list \<Rightarrow> string \<Rightarrow> error + example list \<times> entry list" where
  "parse_line only_supporting st raw =
     (case split_space1 (strip raw) of
        [nid_s, line] \<Rightarrow>
          (case py_int nid_s of
             Inl e \<Rightarrow> Inl e
           | Inr nid \<Rightarrow>
               (let story = (if nid = 1 then [] else snd st) in
                if CHR 0x09 \<in> set line then
                  (case split_on (CHR 0x09) line of
                     [query, answer, supporting] \<Rightarrow>
                       (case (if only_supporting then select_supporting story supporting
                              else Inr (filter truthy story)) of
                          Inl e \<Rightarrow> Inl e
                        | Inr substory \<Rightarrow>
                            Inr (fst st @ [(substory, tokenize query, answer)],
                                 story @ [Placeholder]))
                   | _ \<Rightarrow> Inl ValueError)
                else Inr (fst st, story @ [Sentence (tokenize line)])))
      | _ \<Rightarrow> Inl ValueError)"

fun parse_loop ::
  "bool \<Rightarrow> example list \<times> entry list \<Rightarrow> string list \<Rightarrow> error + example list \<times> entry list" where
  "parse_loop only_supporting st [] = Inr st"
| "parse_loop only_supporting st (l # ls) =
     (case parse_line only_supporting st l of
        Inl e \<Rightarrow> Inl e
      | Inr st' \<Rightarrow> parse_loop only_supporting st' ls)"

definition parse_stories :: "string list \<Rightarrow> bool \<Rightarrow> error + example list" where
  "parse_stories lines only_supporting =
     (case parse_loop only_supporting ([], []) lines of
        Inl e \<Rightarrow> Inl e
      | Inr st \<Rightarrow> Inr (fst st))"

subsection \<open>Vocabulary\<close>

definition PAD_TOKEN :: string where
  "PAD_TOKEN = ''_PAD''"

definition PAD_ID :: int where
  "PAD_ID = 0"

text \<open>The list \<open>tokens_all\<close> once the loop of \<^verbatim>\<open>get_tokenizer\<close> has ended.\<close>

definition tokens_all :: "example list \<Rightarrow> string list" where
  "tokens_all stories =
     concat (map (\<lambda>(story, query, answer). concat (map tokens_of story) @ query @ [answer])
       stories)"

text \<open>
  \<^verbatim>\<open>[PAD_TOKEN] + sorted(set(tokens_all))\<close>: the set drops the duplicates, and sorting
  makes the result independent of the order in which the set is read. Strings compare
  lexicographically by code point.
\<close>

definition vocab :: "example list \<Rightarrow> string list" where
  "vocab stories = PAD_TOKEN # sort (remdups (tokens_all stories))"

text \<open>\<^verbatim>\<open>{token: i for i, token in enumerate(vocab)}\<close>: a later pair replaces an earlier one
  with the same key.\<close>

definition get_tokenizer :: "example list \<Rightarrow> (string \<rightharpoonup> int)" where
  "get_tokenizer stories =
     fold (\<lambda>(i, token) d. d(token \<mapsto> int i)) (enumerate 0 (vocab stories)) Map.empty"

subsection \<open>Encoder\<close>

type_synonym id_example = "int list list \<times> int list \<times> int"

text \<open>\<^verbatim>\<open>token_to_id[token]\<close>\<close>

definition lookup :: "(string \<rightharpoonup> int) \<Rightarrow> string \<Rightarrow> error + int" where
  "lookup token_to_id token =
     (case token_to_id token of None \<Rightarrow> Inl KeyError | Some i \<Rightarrow> Inr i)"

text \<open>The body of the loop of \<^verbatim>\<open>tokenize_stories\<close>: story, then query, then answer.\<close>

definition encode_example :: "(string \<rightharpoonup> int) \<Rightarrow> example \<Rightarrow> error + id_example" where
  "encode_example token_to_id ex =
     (case ex of (story, query, answer) \<Rightarrow>
        (case mapE (\<lambda>sentence. mapE (lookup token_to_id) (tokens_of sentence)) story of
           Inl e \<Rightarrow> Inl e
         | Inr story' \<Rightarrow>
             (case mapE (lookup token_to_id) query of
                Inl e \<Rightarrow> Inl e
              | Inr query' \<Rightarrow>
                  (case lookup token_to_id answer of
                     Inl e \<Rightarrow> Inl e
                   | Inr answer' \<Rightarrow> Inr (story', query', answer')))))"

definition tokenize_stories :: "example list \<Rightarrow> (string \<rightharpoonup> int) \<Rightarrow> error + id_example list" where
  "tokenize_stories stories token_to_id = mapE (encode_example token_to_id) stories"

subsection \<open>Maximum lengths\<close>

text \<open>\<^verbatim>\<open>max(xs)\<close> of a list: \<^verbatim>\<open>ValueError\<close> when the list is empty.\<close>

fun py_max :: "nat list \<Rightarrow> error + nat" where
  "py_max [] = Inl ValueError"
| "py_max (x # xs) = Inr (fold max xs x)"

text \<open>The three maxima that \<^verbatim>\<open>main\<close> computes over \<^verbatim>\<open>stories_token_all\<close>.\<close>

definition sentence_max_length :: "id_example list \<Rightarrow> error + nat" where
  "sentence_max_length stories_token_all =
     py_max (concat (map (\<lambda>(story, query, answer). map length story) stories_token_all))"

definition story_max_length :: "id_example list \<Rightarrow> error + nat" where
  "story_max_length stories_token_all =
     py_max (map (\<lambda>(story, query, answer). length story) stories_token_all)"

definition query_max_length :: "id_example list \<Rightarrow> error + nat" where
  "query_max_length stories_token_all =
     py_max (map (\<lambda>(story, query, answer). length query) stories_token_all)"

text \<open>The three statements in the order of \<^verbatim>\<open>main\<close>, over
  \<^verbatim>\<open>stories_token_train + stories_token_test\<close>.\<close>

definition max_lengths :: "id_example list \<Rightarrow> id_example list \<Rightarrow> error + nat \<times> nat \<times> nat" where
  "max_lengths stories_token_train stories_token_test =
     (let stories_token_all = stories_token_train @ stories_token_test in
      case sentence_max_length stories_token_all of
        Inl e \<Rightarrow> Inl e
      | Inr sm \<Rightarrow>
          (case story_max_length stories_token_all of
             Inl e \<Rightarrow> Inl e
           | Inr stm \<Rightarrow>
               (case query_max_length stories_token_all of
                  Inl e \<Rightarrow> Inl e
                | Inr qm \<Rightarrow> Inr (sm, stm, qm))))"

subsection \<open>Padder\<close>

text \<open>
  The maxima are lengths, as \<^verbatim>\<open>main\<close> computes them, so they are \<open>nat\<close>;
  \<^verbatim>\<open>range(n)\<close> is empty for a negative \<open>n\<close>, which is the truncated subtraction of
  \<open>nat\<close>. The lists that \<^verbatim>\<open>tokenize_stories\<close> builds are fresh objects, so the
  in-place \<^verbatim>\<open>append\<close>s are modelled on values. A failed \<^verbatim>\<open>assert\<close> is
  \<open>AssertionError\<close>.
\<close>

text \<open>\<^verbatim>\<open>for _ in range(m - len(xs)): xs.append(PAD_ID)\<close>\<close>

definition pad_to :: "nat \<Rightarrow> int list \<Rightarrow> int list" where
  "pad_to m xs = xs @ replicate (m - length xs) PAD_ID"

definition pad_sentence :: "nat \<Rightarrow> int list \<Rightarrow> error + int list" where
  "pad_sentence sentence_max sentence =
     (let sentence' = pad_to sentence_max sentence in
      if length sentence' = sentence_max then Inr sentence' else Inl AssertionError)"

text \<open>The body of the loop of \<^verbatim>\<open>pad_stories\<close>.\<close>

definition pad_example :: "nat \<Rightarrow> nat \<Rightarrow> nat \<Rightarrow> id_example \<Rightarrow> error + id_example" where
  "pad_example sentence_max story_max query_max ex =
     (case ex of (story, query, answer) \<Rightarrow>
        (case mapE (pad_sentence sentence_max) story of
           Inl e \<Rightarrow> Inl e
         | Inr story1 \<Rightarrow>
             (let story' = story1 @ replicate (story_max - length story1)
                                       (replicate sentence_max PAD_ID);
                  query' = pad_to query_max query
              in if length story' \<noteq> story_max then Inl AssertionError
                 else if length query' \<noteq> query_max then Inl AssertionError
                 else Inr (story', query', answer))))"

definition pad_stories ::
  "id_example list \<Rightarrow> nat \<Rightarrow> nat \<Rightarrow> nat \<Rightarrow> error + id_example list" where
  "pad_stories stories sentence_max story_max query_max =
     mapE (pad_example sentence_max story_max query_max) stories"

subsection \<open>Notions used to state the properties\<close>

text \<open>What padding is to produce for an example that fits the maxima: every sentence
  and the query filled up with zeros on the right, the story filled up with sentences
  of zeros.\<close>

definition padded_of :: "nat \<Rightarrow> nat \<Rightarrow> nat \<Rightarrow> id_example \<Rightarrow> id_example" where
  "padded_of sm stm qm ex =
     (case ex of (story, query, answer) \<Rightarrow>
        (map (\<lambda>s. s @ replicate (sm - length s) 0) story
           @ replicate (stm - length story) (replicate sm 0),
         query @ replicate (qm - length query) 0, answer))"

definition within :: "nat \<Rightarrow> nat \<Rightarrow> nat \<Rightarrow> id_example \<Rightarrow> bool" where
  "within sm stm qm ex \<longleftrightarrow>
     (case ex of (story, query, answer) \<Rightarrow>
        list_all (\<lambda>s. length s \<le> sm) story \<and> length story \<le> stm \<and> length query \<le> qm)"

text \<open>The maximal runs of a list with respect to a property: neighbouring elements are
  in the same run exactly when the property has the same value on both.\<close>

fun runs :: "('a \<Rightarrow> bool) \<Rightarrow> 'a list \<Rightarrow> 'a list list" where
  "runs P [] = []"
| "runs P [c] = [[c]]"
| "runs P (c # d # cs) =
     (if P c = P d then (c # hd (runs P (d # cs))) # tl (runs P (d # cs))
      else [c] # runs P (d # cs))"

section \<open>Properties\<close>

subsection \<open>Loops that can raise\<close>

lemma mapE_all_Inr: "(\<And>x. x \<in> set xs \<Longrightarrow> f x = Inr (g x)) \<Longrightarrow> mapE f xs = Inr (map g xs)"
  by (induction xs) auto

subsection \<open>Padding\<close>

lemma pad_sentence_within:
  "length s \<le> sm \<Longrightarrow> pad_sentence sm s = Inr (s @ replicate (sm - length s) 0)"
  by (simp add: pad_sentence_def pad_to_def PAD_ID_def)

lemma pad_example_within:
  assumes "within sm stm qm ex"
  shows "pad_example sm stm qm ex = Inr (padded_of sm stm qm ex)"
proof -
  obtain story query answer where ex: "ex = (story, query, answer)"
    by (cases ex) auto
  from assms ex have s: "\<And>s. s \<in> set story \<Longrightarrow> length s \<le> sm"
    and st: "length story \<le> stm" and q: "length query \<le> qm"
    by (auto simp: within_def list_all_iff)
  have "mapE (pad_sentence sm) story = Inr (map (\<lambda>s. s @ replicate (sm - length s) 0) story)"
    by (rule mapE_all_Inr) (simp add: pad_sentence_within s)
  with st q show ?thesis
    by (simp add: ex pad_example_def padded_of_def pad_to_def PAD_ID_def)
qed

lemma pad_stories_within:
  assumes "\<And>ex. ex \<in> set stories \<Longrightarrow> within sm stm qm ex"
  shows "pad_stories stories sm stm qm = Inr (map (padded_of sm stm qm) stories)"
  unfolding pad_stories_def by (rule mapE_all_Inr) (simp add: pad_example_within assms)

text \<open>
  Claim C6. When every sentence of every example is at most \<open>sm\<close> long, every story at
  most \<open>stm\<close> and every query at most \<open>qm\<close>, \<open>pad_stories\<close> returns, and in each example it
  returns the story has \<open>stm\<close> sentences, every sentence has length \<open>sm\<close> and the query
  has length \<open>qm\<close>.
\<close>

theorem pad_stories_shape:
  assumes "\<forall>(story, query, answer) \<in> set stories.
             (\<forall>s \<in> set story. length s \<le> sm) \<and> length story \<le> stm \<and> length query \<le> qm"
  shows "\<exists>padded. pad_stories stories sm stm qm = Inr padded \<and> length padded = length stories \<and>
           (\<forall>(story', query', answer') \<in> set padded.
              length story' = stm \<and> (\<forall>s \<in> set story'. length s = sm) \<and> length query' = qm)"
proof -
  have w: "\<And>ex. ex \<in> set stories \<Longrightarrow> within sm stm qm ex"
    using assms by (auto simp: within_def list_all_iff)
  have "pad_stories stories sm stm qm = Inr (map (padded_of sm stm qm) stories)"
    by (rule pad_stories_within) (rule w)
  moreover have "case padded_of sm stm qm ex of (story', query', answer') \<Rightarrow>
      length story' = stm \<and> (\<forall>s \<in> set story'. length s = sm) \<and> length query' = qm"
    if "ex \<in> set stories" for ex
    using w [OF that] by (cases ex) (auto simp: within_def padded_of_def list_all_iff)
  ultimately show ?thesis
    by simp
qed

theorem pad_stories_shape_witness:
  "\<exists>padded. pad_stories [([[1, 2, 3], [4]], [5, 6], 7), ([[8]], [9], 3)] 4 3 3 = Inr padded \<and>
     padded = [([[1, 2, 3, 0], [4, 0, 0, 0], [0, 0, 0, 0]], [5, 6, 0], 7),
               ([[8, 0, 0, 0], [0, 0, 0, 0], [0, 0, 0, 0]], [9, 0, 0], 3)] \<and>
     (\<forall>(story', query', answer') \<in> set padded.
        length story' = 3 \<and> (\<forall>s \<in> set story'. length s = 4) \<and> length query' = 3)"
  using pad_stories_shape [of "[([[1, 2, 3], [4]], [5, 6], 7), ([[8]], [9], 3)]" 4 3 3]
  by (simp add: pad_stories_def pad_example_def pad_sentence_def pad_to_def PAD_ID_def
      eval_nat_numeral)

text \<open>
  Claim C9. Padding an example that already has the target shape (\<open>stm\<close> sentences, each
  of length \<open>sm\<close>, and a query of length \<open>qm\<close>) returns it unchanged.
\<close>

theorem pad_stories_idempotent:
  assumes "\<forall>(story, query, answer) \<in> set stories.
             length story = stm \<and> (\<forall>s \<in> set story. length s = sm) \<and> length query = qm"
  shows "pad_stories stories sm stm qm = Inr stories"
proof -
  have w: "within sm stm qm ex" and p: "padded_of sm stm qm ex = ex" if "ex \<in> set stories" for ex
    using assms that by (cases ex; fastforce simp: within_def padded_of_def list_all_iff map_idI)+
  have "pad_stories stories sm stm qm = Inr (map (padded_of sm stm qm) stories)"
    by (rule pad_stories_within) (rule w)
  also have "map (padded_of sm stm qm) stories = stories"
    by (rule map_idI) (rule p)
  finally show ?thesis .
qed

theorem pad_stories_idempotent_witness:
  "pad_stories [([[1, 2, 0], [4, 0, 0]], [5, 6], 7), ([[8, 1, 1], [0, 0, 0]], [9, 0], 3)] 3 2 2
     = Inr [([[1, 2, 0], [4, 0, 0]], [5, 6], 7), ([[8, 1, 1], [0, 0, 0]], [9, 0], 3)]"
  using pad_stories_idempotent
    [of "[([[1, 2, 0], [4, 0, 0]], [5, 6], 7), ([[8, 1, 1], [0, 0, 0]], [9, 0], 3)]" 2 3 2]
  by simp

text \<open>
  Claim C10. For examples that fit the maxima, padding returns, keeps the answer, keeps
  every original sentence as the prefix of the sentence at the same position, keeps the
  original query as the prefix of the query, and everything it adds (the tail of a
  sentence, every element of an added sentence, the tail of the query) is the pad id,
  which is 0.
\<close>

theorem pad_stories_frame:
  assumes "\<forall>(story, query, answer) \<in> set stories.
             (\<forall>s \<in> set story. length s \<le> sm) \<and> length story \<le> stm \<and> length query \<le> qm"
  shows "\<exists>padded. pad_stories stories sm stm qm = Inr padded \<and> length padded = length stories \<and>
     (\<forall>k < length stories.
        (case stories ! k of (story, query, answer) \<Rightarrow>
         case padded ! k of (story', query', answer') \<Rightarrow>
           answer' = answer \<and>
           length story \<le> length story' \<and>
           (\<forall>i < length story.
              take (length (story ! i)) (story' ! i) = story ! i \<and>
              set (drop (length (story ! i)) (story' ! i)) \<subseteq> {PAD_ID}) \<and>
           (\<forall>i. length story \<le> i \<and> i < length story' \<longrightarrow> set (story' ! i) \<subseteq> {PAD_ID}) \<and>
           take (length query) query' = query \<and>
           set (drop (length query) query') \<subseteq> {PAD_ID})) \<and> PAD_ID = 0"
proof -
  have w: "\<And>ex. ex \<in> set stories \<Longrightarrow> within sm stm qm ex"
    using assms by (auto simp: within_def list_all_iff)
  have eq: "pad_stories stories sm stm qm = Inr (map (padded_of sm stm qm) stories)"
    by (rule pad_stories_within) (rule w)
  have "case stories ! k of (story, query, answer) \<Rightarrow>
         case map (padded_of sm stm qm) stories ! k of (story', query', answer') \<Rightarrow>
           answer' = answer \<and>
           length story \<le> length story' \<and>
           (\<forall>i < length story.
              take (length (story ! i)) (story' ! i) = story ! i \<and>
              set (drop (length (story ! i)) (story' ! i)) \<subseteq> {PAD_ID}) \<and>
           (\<forall>i. length story \<le> i \<and> i < length story' \<longrightarrow> set (story' ! i) \<subseteq> {PAD_ID}) \<and>
           take (length query) query' = query \<and>
           set (drop (length query) query') \<subseteq> {PAD_ID}" if k: "k < length stories" for k
  proof -
    obtain story query answer where ex: "stories ! k = (story, query, answer)"
      by (cases "stories ! k") auto
    show ?thesis
      using k by (auto simp: ex padded_of_def PAD_ID_def nth_append)
  qed
  with eq show ?thesis
    by (simp add: PAD_ID_def)
qed

theorem pad_stories_frame_witness:
  "\<exists>padded. pad_stories [([[1, 2, 3], [4]], [5, 6], 7)] 4 3 3 = Inr padded \<and>
     padded = [([[1, 2, 3, 0], [4, 0, 0, 0], [0, 0, 0, 0]], [5, 6, 0], 7)] \<and>
     snd (snd (padded ! 0)) = 7 \<and>
     take 3 (fst (padded ! 0) ! 0) = [1, 2, 3] \<and> drop 3 (fst (padded ! 0) ! 0) = [0] \<and>
     take 1 (fst (padded ! 0) ! 1) = [4] \<and> drop 1 (fst (padded ! 0) ! 1) = [0, 0, 0] \<and>
     fst (padded ! 0) ! 2 = [0, 0, 0, 0] \<and>
     take 2 (fst (snd (padded ! 0))) = [5, 6] \<and> drop 2 (fst (snd (padded ! 0))) = [0]"
  using pad_stories_frame [of "[([[1, 2, 3], [4]], [5, 6], 7)]" 4 3 3]
  by (simp add: pad_stories_def pad_example_def pad_sentence_def pad_to_def PAD_ID_def
      eval_nat_numeral)

subsection \<open>Maximum lengths\<close>

lemma py_max_eq: "py_max xs = (if xs = [] then Inl ValueError else Inr (Max (set xs)))"
proof (cases xs)
  case Nil
  then show ?thesis by simp
next
  case (Cons x ys)
  have "fold max ys x = Max (set (x # ys))"
    by (rule Max.set_eq_fold [symmetric])
  with Cons show ?thesis by simp
qed

text \<open>
  Claim C5 (as the code has it). Over the examples of both splits, the three maxima are
  the greatest sentence length over all sentences of all stories, the greatest number of
  sentences of a story and the greatest query length. They are returned whenever some
  story has a sentence. When no story has a sentence, and so when there is no example at
  all, the computation raises \<open>ValueError\<close>: the first \<^verbatim>\<open>max\<close> is over an empty list.
\<close>

theorem max_lengths_correct:
  "max_lengths train test =
     (if concat (map fst (train @ test)) = [] then Inl ValueError
      else Inr (Max (length ` (\<Union>ex \<in> set (train @ test). set (fst ex))),
                Max ((\<lambda>ex. length (fst ex)) ` set (train @ test)),
                Max ((\<lambda>ex. length (fst (snd ex))) ` set (train @ test))))
   \<and> max_lengths [] [] = Inl ValueError"
proof -
  define all where "all = train @ test"
  have 1: "concat (map (\<lambda>(story, query, answer). map length story) all)
             = map length (concat (map fst all))"
    by (induction all) auto
  have 2: "set (concat (map fst all)) = (\<Union>ex \<in> set all. set (fst ex))"
    by auto
  have 3: "map (\<lambda>(story, query, answer). length story) all = map (\<lambda>ex. length (fst ex)) all"
    by (auto simp: case_prod_beta)
  have 4: "map (\<lambda>(story, query, answer). length query) all
             = map (\<lambda>ex. length (fst (snd ex))) all"
    by (auto simp: case_prod_beta)
  have 5: "concat (map fst all) \<noteq> [] \<Longrightarrow> all \<noteq> []"
    by auto
  have "max_lengths train test =
     (if concat (map fst all) = [] then Inl ValueError
      else Inr (Max (length ` (\<Union>ex \<in> set all. set (fst ex))),
                Max ((\<lambda>ex. length (fst ex)) ` set all),
                Max ((\<lambda>ex. length (fst (snd ex))) ` set all)))"
    unfolding max_lengths_def sentence_max_length_def story_max_length_def
      query_max_length_def all_def [symmetric] Let_def 1 3 4 py_max_eq
    using 5 by (simp add: 2 del: set_concat)
  moreover have "max_lengths [] [] = Inl ValueError"
    by (simp add: max_lengths_def sentence_max_length_def)
  ultimately show ?thesis
    by (simp add: all_def)
qed

theorem max_lengths_correct_witness:
  "max_lengths [([[1, 2, 3], [4]], [5, 6], 7)] [([[1, 2, 3, 4, 5]], [5, 6, 3], 7)] = Inr (5, 2, 3) \<and>
   max_lengths [([], [5, 6], 7)] [] = Inl ValueError"
  using max_lengths_correct [of "[([[1, 2, 3], [4]], [5, 6], 7)]" "[([[1, 2, 3, 4, 5]], [5, 6, 3], 7)]"]
    max_lengths_correct [of "[([], [5, 6], 7)]" "[]"]
  by simp

text \<open>
  A set that is not empty on which no maxima are returned: a question on the first line
  of a story gives an example whose story is empty.
\<close>

theorem max_lengths_counterexample:
  "parse_stories [''1 Where is Mary?'' @ [CHR 0x09] @ ''bathroom'' @ [CHR 0x09] @ ''1''] False
     = Inr [([], [''Where'', ''is'', ''Mary'', ''?''], ''bathroom'')] \<and>
   tokenize_stories [([], [''Where'', ''is'', ''Mary'', ''?''], ''bathroom'')]
       (get_tokenizer [([], [''Where'', ''is'', ''Mary'', ''?''], ''bathroom'')])
     = Inr [([], [3, 5, 2, 1], 4)] \<and>
   max_lengths [([], [3, 5, 2, 1], 4)] [] = Inl ValueError"
  by code_simp

subsection \<open>Tokenizer\<close>

lemma runs_Cons:
  "ys \<noteq> [] \<Longrightarrow> runs P (c # ys) = (if P c = P (hd ys) then (c # hd (runs P ys)) # tl (runs P ys) else [c] # runs P ys)"
  by (cases ys) auto

lemma runs_eq_Nil [simp]: "runs P xs = [] \<longleftrightarrow> xs = []"
  by (induction P xs rule: runs.induct) auto

lemma hd_hd_runs: "xs \<noteq> [] \<Longrightarrow> hd (hd (runs P xs)) = hd xs"
  by (induction P xs rule: runs.induct) auto

lemma runs_homogeneous:
  "xs \<noteq> [] \<Longrightarrow> \<forall>x \<in> set xs. P x = b \<Longrightarrow> ys = [] \<or> P (hd ys) \<noteq> b \<Longrightarrow>
   runs P (xs @ ys) = xs # runs P ys"
proof (induction xs)
  case Nil
  then show ?case by simp
next
  case (Cons x xs)
  show ?case
  proof (cases "xs = []")
    case True
    with Cons.prems show ?thesis
      by (cases ys) auto
  next
    case False
    with Cons have IH: "runs P (xs @ ys) = xs # runs P ys"
      by simp
    from False Cons.prems have "P x = P (hd (xs @ ys))"
      by (cases xs) auto
    with False IH show ?thesis
      by (simp add: runs_Cons)
  qed
qed

lemma re_split_runs:
  "\<forall>x \<in> set seg. is_word x \<Longrightarrow>
   filter (\<lambda>t. t \<noteq> []) (re_split seg s) = runs is_word (seg @ s)"
proof (induction seg s rule: re_split.induct)
  case (1 seg)
  then show ?case
    using runs_homogeneous [of seg is_word True "[]"] by auto
next
  case (2 seg c cs)
  show ?case
  proof (cases "is_word c")
    case True
    with 2 show ?thesis by simp
  next
    case False
    define tw where "tw = takeWhile (\<lambda>x. \<not> is_word x) (c # cs)"
    define dw where "dw = dropWhile (\<lambda>x. \<not> is_word x) (c # cs)"
    have tw: "tw \<noteq> []" "\<forall>x \<in> set tw. is_word x = False" and split: "c # cs = tw @ dw"
      and dw: "dw = [] \<or> is_word (hd dw) \<noteq> False"
      using False hd_dropWhile [of "\<lambda>x. \<not> is_word x" "c # cs"]
      by (auto simp: tw_def dw_def dest: set_takeWhileD)
    have IH: "filter (\<lambda>t. t \<noteq> []) (re_split [] dw) = runs is_word dw"
      using 2(2) [OF False] by (simp add: dw_def)
    have a: "runs is_word (tw @ dw) = tw # runs is_word dw"
      using tw dw by (rule runs_homogeneous)
    have hd: "hd (tw @ dw) = c"
      using False by (simp add: tw_def)
    have b: "runs is_word (seg @ tw @ dw) = (if seg = [] then [] else [seg]) @ runs is_word (tw @ dw)"
      using runs_homogeneous [of seg is_word True "tw @ dw"] 2(3) False hd by auto
    have "re_split seg (c # cs) = seg # tw # re_split [] dw"
      using False by (simp add: tw_def dw_def)
    then show ?thesis
      using IH tw by (simp add: split a b)
  qed
qed

lemma strip_Nil [simp]: "strip [] = []"
  by (simp add: strip_def)

lemma tokenize_filter_map:
  "tokenize s = filter (\<lambda>t. t \<noteq> []) (map strip (filter (\<lambda>t. t \<noteq> []) (re_split [] s)))"
proof -
  have "filter (\<lambda>t. t \<noteq> []) (map strip (filter (\<lambda>t. t \<noteq> []) xs))
      = map strip (filter (\<lambda>t. strip t \<noteq> []) xs)" for xs
    by (induction xs) auto
  then show ?thesis
    by (simp add: tokenize_def)
qed

lemma tokenize_runs: "tokenize s = filter (\<lambda>t. t \<noteq> []) (map strip (runs is_word s))"
  using re_split_runs [of "[]" s] by (simp add: tokenize_filter_map)

lemma strip_ends: "strip s \<noteq> [] \<Longrightarrow> \<not> is_space (hd (strip s)) \<and> \<not> is_space (last (strip s))"
proof -
  assume a: "strip s \<noteq> []"
  define u where "u = dropWhile is_space s"
  define v where "v = dropWhile is_space (rev u)"
  have sv: "strip s = rev v" by (simp add: strip_def u_def v_def)
  with a have v: "v \<noteq> []" by simp
  then have 1: "\<not> is_space (hd v)" unfolding v_def by (rule hd_dropWhile)
  from v have "u \<noteq> []" by (auto simp: v_def)
  then have 2: "\<not> is_space (hd u)" unfolding u_def by (rule hd_dropWhile)
  have "\<exists>w. rev u = w @ v" unfolding v_def
    by (metis takeWhile_dropWhile_id)
  then obtain w where "rev u = w @ v" ..
  then have "u = rev v @ rev w" by (metis rev_append rev_rev_ident)
  with v have "hd u = hd (rev v)" by simp
  with 1 2 v show ?thesis
    by (simp add: sv last_rev)
qed

lemma set_strip: "set (strip s) \<subseteq> set s"
  unfolding strip_def by (metis set_dropWhileD set_rev subsetI)


lemma re_split_kind:
  "\<forall>x \<in> set seg. is_word x \<Longrightarrow> r \<in> set (re_split seg s) \<Longrightarrow>
   (\<forall>x \<in> set r. is_word x) \<or> (\<forall>x \<in> set r. \<not> is_word x)"
proof (induction seg s rule: re_split.induct)
  case (1 seg)
  then show ?case by simp
next
  case (2 seg c cs)
  show ?case
  proof (cases "is_word c")
    case True
    with 2 show ?thesis by simp
  next
    case False
    with 2(4) consider "r = seg" | "r = takeWhile (\<lambda>x. \<not> is_word x) (c # cs)"
      | "r \<in> set (re_split [] (dropWhile (\<lambda>x. \<not> is_word x) (c # cs)))"
      by auto
    then show ?thesis
    proof cases
      case 1
      with 2(3) show ?thesis by simp
    next
      case 2
      then show ?thesis by (auto dest: set_takeWhileD)
    next
      case 3
      with 2(2) [OF False] show ?thesis by simp
    qed
  qed
qed

text \<open>
  Claim C1 (as the code has it). \<open>tokenize\<close> returns, in order, the maximal runs of word
  characters and the maximal runs of non-word characters of the line, each with the
  whitespace at its ends removed, without those that are then empty. So a run of
  punctuation is a token: the capturing group of \<^verbatim>\<open>SPLIT_RE\<close> puts the delimiters into
  the result of \<^verbatim>\<open>re.split\<close>, and only whitespace is stripped. No token is empty, none
  begins or ends with whitespace, and each consists of word characters only or of
  non-word characters only. \<^verbatim>\<open>tokenize("John went to the garden.")\<close> ends with the token
  \<^verbatim>\<open>"."\<close>.
\<close>

theorem tokenize_runs_tokens:
  "tokenize s = filter (\<lambda>t. t \<noteq> []) (map strip (runs is_word s)) \<and>
   (\<forall>t \<in> set (tokenize s).
      t \<noteq> [] \<and> \<not> is_space (hd t) \<and> \<not> is_space (last t) \<and>
      ((\<forall>c \<in> set t. is_word c) \<or> (\<forall>c \<in> set t. \<not> is_word c))) \<and>
   tokenize ''John went to the garden.'' = [''John'', ''went'', ''to'', ''the'', ''garden'', ''.'']"
proof (intro conjI ballI)
  show "tokenize s = filter (\<lambda>t. t \<noteq> []) (map strip (runs is_word s))"
    by (rule tokenize_runs)
next
  fix t assume "t \<in> set (tokenize s)"
  then obtain r where r: "r \<in> set (re_split [] s)" and t: "t = strip r" and ne: "strip r \<noteq> []"
    by (auto simp: tokenize_def)
  from ne show "t \<noteq> []" by (simp add: t)
  from strip_ends [OF ne] show "\<not> is_space (hd t)" and "\<not> is_space (last t)"
    by (simp_all add: t)
  from re_split_kind [OF _ r] have "(\<forall>x \<in> set r. is_word x) \<or> (\<forall>x \<in> set r. \<not> is_word x)"
    by simp
  with set_strip [of r] show "(\<forall>c \<in> set t. is_word c) \<or> (\<forall>c \<in> set t. \<not> is_word c)"
    unfolding t by blast
next
  show "tokenize ''John went to the garden.'' = [''John'', ''went'', ''to'', ''the'', ''garden'', ''.'']"
    by (simp add: tokenize_def strip_def is_word_def is_space_def)
qed

theorem tokenize_runs_tokens_witness:
  "tokenize ''a. ?b'' = [''a'', ''. ?'', ''b''] \<and>
   runs is_word ''a. ?b'' = [''a'', ''. ?'', ''b''] \<and>
   ''. ?'' \<in> set (tokenize ''a. ?b'') \<and> \<not> is_space (hd ''. ?'') \<and> \<not> is_space (last ''. ?'') \<and>
   \<not> is_word (CHR ''.'')"
  using tokenize_runs_tokens [of "''a. ?b''"]
  by (simp add: strip_def is_word_def is_space_def)

text \<open>The claim as stated, with the full stop dropped, fails on its own example.\<close>

theorem tokenize_drops_punctuation_counterexample:
  "tokenize ''John went to the garden.'' \<noteq> [''John'', ''went'', ''to'', ''the'', ''garden'']"
  by (simp add: tokenize_def strip_def is_word_def is_space_def)

subsection \<open>Encoder\<close>

lemma mapE_if:
  "(\<And>x. x \<in> set xs \<Longrightarrow> f x = (if bad x then Inl E else Inr (g x))) \<Longrightarrow>
   mapE f xs = (if \<exists>x \<in> set xs. bad x then Inl E else Inr (map g xs))"
  by (induction xs) auto

lemma lookup_if: "lookup m t = (if m t = None then Inl KeyError else Inr (the (m t)))"
  by (auto simp: lookup_def split: option.splits)

lemma mapE_lookup:
  "mapE (lookup m) ts = (if \<exists>t \<in> set ts. m t = None then Inl KeyError else Inr (map (\<lambda>t. the (m t)) ts))"
  by (rule mapE_if) (rule lookup_if)

lemma encode_example_if:
  "encode_example m ex =
     (if \<exists>t \<in> set (tokens_all [ex]). m t = None then Inl KeyError
      else Inr (case ex of (story, query, answer) \<Rightarrow>
             (map (\<lambda>sentence. map (\<lambda>t. the (m t)) (tokens_of sentence)) story,
              map (\<lambda>t. the (m t)) query, the (m answer))))"
proof -
  obtain story query answer where ex: "ex = (story, query, answer)"
    by (cases ex) auto
  have "mapE (\<lambda>sentence. mapE (lookup m) (tokens_of sentence)) story =
      (if \<exists>sentence \<in> set story. \<exists>t \<in> set (tokens_of sentence). m t = None then Inl KeyError
       else Inr (map (\<lambda>sentence. map (\<lambda>t. the (m t)) (tokens_of sentence)) story))"
    by (rule mapE_if) (rule mapE_lookup)
  then show ?thesis
    by (auto simp: ex encode_example_def tokens_all_def mapE_lookup lookup_if)
qed

text \<open>
  Claim C8. Encoding raises (\<open>KeyError\<close>) exactly when some token of a story sentence, of a
  query or an answer is not a key of the vocabulary; otherwise it returns the examples
  with every token replaced by its id and every answer by its id.
\<close>

theorem tokenize_stories_correct:
  "tokenize_stories stories token_to_id =
     (if \<exists>t \<in> set (tokens_all stories). token_to_id t = None then Inl KeyError
      else Inr (map (\<lambda>(story, query, answer).
             (map (\<lambda>sentence. map (\<lambda>t. the (token_to_id t)) (tokens_of sentence)) story,
              map (\<lambda>t. the (token_to_id t)) query, the (token_to_id answer))) stories))"
proof -
  have "(\<exists>ex \<in> set stories. \<exists>t \<in> set (tokens_all [ex]). token_to_id t = None)
      \<longleftrightarrow> (\<exists>t \<in> set (tokens_all stories). token_to_id t = None)"
    by (auto simp: tokens_all_def)
  moreover have "tokenize_stories stories token_to_id =
     (if \<exists>ex \<in> set stories. \<exists>t \<in> set (tokens_all [ex]). token_to_id t = None then Inl KeyError
      else Inr (map (\<lambda>ex. case ex of (story, query, answer) \<Rightarrow>
             (map (\<lambda>sentence. map (\<lambda>t. the (token_to_id t)) (tokens_of sentence)) story,
              map (\<lambda>t. the (token_to_id t)) query, the (token_to_id answer))) stories))"
    unfolding tokenize_stories_def by (rule mapE_if) (rule encode_example_if)
  ultimately show ?thesis
    by simp
qed

theorem tokenize_stories_correct_witness:
  "tokenize_stories [([Sentence [''a'', ''b'']], [''a''], ''b'')] [''a'' \<mapsto> 1, ''b'' \<mapsto> 2]
     = Inr [([[1, 2]], [1], 2)] \<and>
   tokenize_stories [([Sentence [''a'', ''c'']], [''a''], ''b'')] [''a'' \<mapsto> 1, ''b'' \<mapsto> 2]
     = Inl KeyError"
  using tokenize_stories_correct [of "[([Sentence [''a'', ''b'']], [''a''], ''b'')]" "[''a'' \<mapsto> 1, ''b'' \<mapsto> 2]"]
    tokenize_stories_correct [of "[([Sentence [''a'', ''c'']], [''a''], ''b'')]" "[''a'' \<mapsto> 1, ''b'' \<mapsto> 2]"]
  by (simp add: tokens_all_def)

subsection \<open>Story parser\<close>

text \<open>
  Claim C2 (as the code has it). The two lines \<^verbatim>\<open>1 Mary moved to the bathroom.\<close> and
  \<^verbatim>\<open>2 Where is Mary?<TAB>bathroom<TAB>1\<close> give one example, whose story is the one
  sentence \<^verbatim>\<open>Mary moved to the bathroom .\<close>, whose query is \<^verbatim>\<open>Where is Mary ?\<close> and
  whose answer is \<^verbatim>\<open>bathroom\<close>: the full stop and the question mark are tokens. With
  \<open>only_supporting\<close> the result is the same.
\<close>

theorem parse_stories_two_lines:
  "parse_stories [''1 Mary moved to the bathroom.'',
                  ''2 Where is Mary?'' @ [CHR 0x09] @ ''bathroom'' @ [CHR 0x09] @ ''1''] False
     = Inr [([Sentence [''Mary'', ''moved'', ''to'', ''the'', ''bathroom'', ''.'']],
             [''Where'', ''is'', ''Mary'', ''?''], ''bathroom'')] \<and>
   parse_stories [''1 Mary moved to the bathroom.'',
                  ''2 Where is Mary?'' @ [CHR 0x09] @ ''bathroom'' @ [CHR 0x09] @ ''1''] True
     = Inr [([Sentence [''Mary'', ''moved'', ''to'', ''the'', ''bathroom'', ''.'']],
             [''Where'', ''is'', ''Mary'', ''?''], ''bathroom'')]"
  by code_simp

text \<open>The result is not the one of the claim, which has no punctuation tokens.\<close>

theorem parse_stories_two_lines_counterexample:
  "parse_stories [''1 Mary moved to the bathroom.'',
                  ''2 Where is Mary?'' @ [CHR 0x09] @ ''bathroom'' @ [CHR 0x09] @ ''1''] False
     \<noteq> Inr [([Sentence [''Mary'', ''moved'', ''to'', ''the'', ''bathroom'']],
             [''Where'', ''is'', ''Mary''], ''bathroom'')]"
  by code_simp

text \<open>
  With \<open>only_supporting\<close>, the third line below names index 2, which is the placeholder of
  the question before it, and index 0, which Python reads from the end of the buffer.
  The parse does not fail: both placeholders are in the substory.
\<close>

theorem supporting_placeholder_counterexample:
  "parse_stories [''1 Mary moved to the bathroom.'',
                  ''2 Where is Mary?'' @ [CHR 0x09] @ ''bathroom'' @ [CHR 0x09] @ ''1'',
                  ''3 Where is Mary?'' @ [CHR 0x09] @ ''bathroom'' @ [CHR 0x09] @ ''2 0''] True
     = Inr [([Sentence [''Mary'', ''moved'', ''to'', ''the'', ''bathroom'', ''.'']],
             [''Where'', ''is'', ''Mary'', ''?''], ''bathroom''),
            ([Placeholder, Placeholder], [''Where'', ''is'', ''Mary'', ''?''], ''bathroom'')]"
  by code_simp

lemma parse_loop_append:
  "parse_loop b st (xs @ ys) =
     (case parse_loop b st xs of Inl e \<Rightarrow> Inl e | Inr st' \<Rightarrow> parse_loop b st' ys)"
  by (induction xs arbitrary: st) (auto split: sum.splits)

lemma py_index_out_of_range:
  "int (length xs) \<le> i \<or> i < - int (length xs) \<Longrightarrow> py_index xs i = Inl IndexError"
  by (auto simp: py_index_def)

lemma py_index_error: "py_index xs i = Inl e \<Longrightarrow> e = IndexError"
  by (auto simp: py_index_def split: if_splits)

lemma mapE_py_index_fails:
  "i \<in> set ids \<Longrightarrow> py_index xs (i - 1) = Inl IndexError \<Longrightarrow>
   mapE (\<lambda>i. py_index xs (i - 1)) ids = Inl IndexError"
  by (induction ids) (auto split: sum.splits dest: py_index_error)

text \<open>An index out of range at a question line ends the whole parse.\<close>

lemma supporting_out_of_range_fails:
  assumes pre: "parse_loop True ([], []) pre = Inr (stories, story)"
    and l: "split_space1 (strip l) = [nid_s, line]"
    and nid: "py_int nid_s = Inr nid"
    and tab: "CHR 0x09 \<in> set line"
    and fields: "split_on (CHR 0x09) line = [query, answer, supporting]"
    and ids: "mapE py_int (split_ws supporting) = Inr ids"
    and i: "i \<in> set ids"
    and range: "int (length (if nid = 1 then [] else story)) < i
                \<or> i \<le> - int (length (if nid = 1 then [] else story))"
  shows "parse_stories (pre @ l # post) True = Inl IndexError"
proof -
  define buf where "buf = (if nid = 1 then [] else story)"
  from range have "py_index buf (i - 1) = Inl IndexError"
    unfolding buf_def by (intro py_index_out_of_range) auto
  with i have "mapE (\<lambda>i. py_index buf (i - 1)) ids = Inl IndexError"
    by (rule mapE_py_index_fails)
  then have "select_supporting buf supporting = Inl IndexError"
    by (simp add: select_supporting_def ids)
  then have "parse_line True (stories, story) l = Inl IndexError"
    using l nid tab fields by (cases "nid = 1") (simp_all add: parse_line_def buf_def)
  then show ?thesis
    by (simp add: parse_stories_def parse_loop_append pre)
qed

lemma py_index_in_range:
  "- int (length xs) < i \<Longrightarrow> i \<le> int (length xs) \<Longrightarrow>
   py_index xs (i - 1) = Inr (xs ! nat (if 1 \<le> i then i - 1 else int (length xs) + i - 1))"
  by (auto simp: py_index_def algebra_simps)

text \<open>
  Claim C3 (as the code has it). With \<open>only_supporting\<close>, let the lines before a question
  line leave \<open>story\<close> in the buffer, and let \<open>buf\<close> be the buffer the line is processed
  on (empty when the line has id 1, \<open>story\<close> otherwise). If some supporting index is
  greater than the length of \<open>buf\<close>, or at most minus that length, the whole parse
  raises \<open>IndexError\<close>, whatever lines follow. Otherwise the line does not fail and
  nothing is checked: the substory is, in the order of the indices, the entry at
  position \<open>i - 1\<close> of \<open>buf\<close> for an index \<open>i\<close> from 1 on, be it a sentence or the
  placeholder of an earlier question, and the entry at position \<open>length buf + i - 1\<close>,
  counted from the end, for an index \<open>i\<close> that is 0 or negative; the example is emitted
  and the parse goes on with the lines that follow.
\<close>

theorem supporting_index_resolution:
  assumes pre: "parse_loop True ([], []) pre = Inr (stories, story)"
    and l: "split_space1 (strip l) = [nid_s, line]"
    and nid: "py_int nid_s = Inr nid"
    and tab: "CHR 0x09 \<in> set line"
    and fields: "split_on (CHR 0x09) line = [query, answer, supporting]"
    and ids: "mapE py_int (split_ws supporting) = Inr ids"
    and buf: "buf = (if nid = 1 then [] else story)"
  shows "((\<exists>i \<in> set ids. int (length buf) < i \<or> i \<le> - int (length buf)) \<longrightarrow>
            parse_stories (pre @ l # post) True = Inl IndexError) \<and>
         ((\<forall>i \<in> set ids. - int (length buf) < i \<and> i \<le> int (length buf)) \<longrightarrow>
            parse_loop True ([], []) (pre @ [l]) =
              Inr (stories @
                     [(map (\<lambda>i. buf ! nat (if 1 \<le> i then i - 1 else int (length buf) + i - 1)) ids,
                       tokenize query, answer)],
                   buf @ [Placeholder]) \<and>
            parse_stories (pre @ l # post) True =
              (case parse_loop True
                      (stories @
                         [(map (\<lambda>i. buf ! nat (if 1 \<le> i then i - 1 else int (length buf) + i - 1)) ids,
                           tokenize query, answer)],
                       buf @ [Placeholder]) post of
                 Inl e \<Rightarrow> Inl e
               | Inr st \<Rightarrow> Inr (fst st)))"
proof (intro conjI impI)
  assume "\<exists>i \<in> set ids. int (length buf) < i \<or> i \<le> - int (length buf)"
  then obtain i where "i \<in> set ids"
    and "int (length (if nid = 1 then [] else story)) < i
         \<or> i \<le> - int (length (if nid = 1 then [] else story))"
    unfolding buf by blast
  with pre l nid tab fields ids show "parse_stories (pre @ l # post) True = Inl IndexError"
    by (rule supporting_out_of_range_fails)
next
  assume range: "\<forall>i \<in> set ids. - int (length buf) < i \<and> i \<le> int (length buf)"
  define sub where
    "sub = map (\<lambda>i. buf ! nat (if 1 \<le> i then i - 1 else int (length buf) + i - 1)) ids"
  have "mapE (\<lambda>i. py_index buf (i - 1)) ids = Inr sub"
    unfolding sub_def using range by (intro mapE_all_Inr py_index_in_range) auto
  then have "select_supporting buf supporting = Inr sub"
    by (simp add: select_supporting_def ids)
  then have step: "parse_line True (stories, story) l
      = Inr (stories @ [(sub, tokenize query, answer)], buf @ [Placeholder])"
    using l nid tab fields by (cases "nid = 1") (simp_all add: parse_line_def buf)
  show "parse_loop True ([], []) (pre @ [l]) =
      Inr (stories @
             [(map (\<lambda>i. buf ! nat (if 1 \<le> i then i - 1 else int (length buf) + i - 1)) ids,
               tokenize query, answer)],
           buf @ [Placeholder])"
    using step by (simp add: parse_loop_append pre sub_def)
  show "parse_stories (pre @ l # post) True =
      (case parse_loop True
              (stories @
                 [(map (\<lambda>i. buf ! nat (if 1 \<le> i then i - 1 else int (length buf) + i - 1)) ids,
                   tokenize query, answer)],
               buf @ [Placeholder]) post of
         Inl e \<Rightarrow> Inl e
       | Inr st \<Rightarrow> Inr (fst st))"
    using step by (simp add: parse_stories_def parse_loop_append pre sub_def)
qed

theorem supporting_index_resolution_witness:
  "parse_stories ([''1 Mary moved to the bathroom.''] @
      (''2 Where is Mary?'' @ [CHR 0x09] @ ''bathroom'' @ [CHR 0x09] @ ''1 2'') # [''3 Mary went home.'']) True
     = Inl IndexError \<and>
   parse_loop True ([], [])
     ([''1 Mary moved to the bathroom.'',
       ''2 Where is Mary?'' @ [CHR 0x09] @ ''bathroom'' @ [CHR 0x09] @ ''1''] @
      [''3 Who moved?'' @ [CHR 0x09] @ ''Mary'' @ [CHR 0x09] @ ''2 0 -1 1''])
     = Inr ([([Sentence [''Mary'', ''moved'', ''to'', ''the'', ''bathroom'', ''.'']],
              [''Where'', ''is'', ''Mary'', ''?''], ''bathroom''),
             ([Placeholder, Placeholder,
               Sentence [''Mary'', ''moved'', ''to'', ''the'', ''bathroom'', ''.''],
               Sentence [''Mary'', ''moved'', ''to'', ''the'', ''bathroom'', ''.'']],
              [''Who'', ''moved'', ''?''], ''Mary'')],
            [Sentence [''Mary'', ''moved'', ''to'', ''the'', ''bathroom'', ''.''],
             Placeholder, Placeholder])"
proof -
  have pre1: "parse_loop True ([], []) [''1 Mary moved to the bathroom.'']
     = Inr ([], [Sentence [''Mary'', ''moved'', ''to'', ''the'', ''bathroom'', ''.'']])"
    by code_simp
  have l1: "split_space1 (strip (''2 Where is Mary?'' @ [CHR 0x09] @ ''bathroom'' @ [CHR 0x09] @ ''1 2''))
      = [''2'', ''Where is Mary?'' @ [CHR 0x09] @ ''bathroom'' @ [CHR 0x09] @ ''1 2'']"
    by code_simp
  have nid1: "py_int ''2'' = Inr 2"
    by code_simp
  have tab1: "CHR 0x09 \<in> set (''Where is Mary?'' @ [CHR 0x09] @ ''bathroom'' @ [CHR 0x09] @ ''1 2'')"
    by simp
  have fields1: "split_on (CHR 0x09) (''Where is Mary?'' @ [CHR 0x09] @ ''bathroom'' @ [CHR 0x09] @ ''1 2'')
      = [''Where is Mary?'', ''bathroom'', ''1 2'']"
    by code_simp
  have ids1: "mapE py_int (split_ws ''1 2'') = Inr [1, 2]"
    by code_simp
  have buf1: "[Sentence [''Mary'', ''moved'', ''to'', ''the'', ''bathroom'', ''.'']]
      = (if (2::int) = 1 then [] else [Sentence [''Mary'', ''moved'', ''to'', ''the'', ''bathroom'', ''.'']])"
    by simp
  have fails: "parse_stories ([''1 Mary moved to the bathroom.''] @
      (''2 Where is Mary?'' @ [CHR 0x09] @ ''bathroom'' @ [CHR 0x09] @ ''1 2'') # [''3 Mary went home.'']) True
     = Inl IndexError"
    using supporting_index_resolution [OF pre1 l1 nid1 tab1 fields1 ids1 buf1, of "[''3 Mary went home.'']"]
    by simp
  have pre2: "parse_loop True ([], [])
      [''1 Mary moved to the bathroom.'',
       ''2 Where is Mary?'' @ [CHR 0x09] @ ''bathroom'' @ [CHR 0x09] @ ''1'']
     = Inr ([([Sentence [''Mary'', ''moved'', ''to'', ''the'', ''bathroom'', ''.'']],
              [''Where'', ''is'', ''Mary'', ''?''], ''bathroom'')],
            [Sentence [''Mary'', ''moved'', ''to'', ''the'', ''bathroom'', ''.''], Placeholder])"
    by code_simp
  have l2: "split_space1 (strip (''3 Who moved?'' @ [CHR 0x09] @ ''Mary'' @ [CHR 0x09] @ ''2 0 -1 1''))
      = [''3'', ''Who moved?'' @ [CHR 0x09] @ ''Mary'' @ [CHR 0x09] @ ''2 0 -1 1'']"
    by code_simp
  have nid2: "py_int ''3'' = Inr 3"
    by code_simp
  have tab2: "CHR 0x09 \<in> set (''Who moved?'' @ [CHR 0x09] @ ''Mary'' @ [CHR 0x09] @ ''2 0 -1 1'')"
    by simp
  have fields2: "split_on (CHR 0x09) (''Who moved?'' @ [CHR 0x09] @ ''Mary'' @ [CHR 0x09] @ ''2 0 -1 1'')
      = [''Who moved?'', ''Mary'', ''2 0 -1 1'']"
    by code_simp
  have ids2: "mapE py_int (split_ws ''2 0 -1 1'') = Inr [2, 0, - 1, 1]"
    by code_simp
  have buf2: "[Sentence [''Mary'', ''moved'', ''to'', ''the'', ''bathroom'', ''.''], Placeholder]
      = (if (3::int) = 1 then []
         else [Sentence [''Mary'', ''moved'', ''to'', ''the'', ''bathroom'', ''.''], Placeholder])"
    by simp
  have q: "tokenize ''Who moved?'' = [''Who'', ''moved'', ''?'']"
    by code_simp
  have works: "parse_loop True ([], [])
     ([''1 Mary moved to the bathroom.'',
       ''2 Where is Mary?'' @ [CHR 0x09] @ ''bathroom'' @ [CHR 0x09] @ ''1''] @
      [''3 Who moved?'' @ [CHR 0x09] @ ''Mary'' @ [CHR 0x09] @ ''2 0 -1 1''])
     = Inr ([([Sentence [''Mary'', ''moved'', ''to'', ''the'', ''bathroom'', ''.'']],
              [''Where'', ''is'', ''Mary'', ''?''], ''bathroom''),
             ([Placeholder, Placeholder,
               Sentence [''Mary'', ''moved'', ''to'', ''the'', ''bathroom'', ''.''],
               Sentence [''Mary'', ''moved'', ''to'', ''the'', ''bathroom'', ''.'']],
              [''Who'', ''moved'', ''?''], ''Mary'')],
            [Sentence [''Mary'', ''moved'', ''to'', ''the'', ''bathroom'', ''.''],
             Placeholder, Placeholder])"
    using supporting_index_resolution [OF pre2 l2 nid2 tab2 fields2 ids2 buf2, of "[]"] q
    by simp
  from fails works show ?thesis ..
qed

lemma parse_line_stories:
  "parse_line b (stories, story) l =
     (case parse_line b ([], story) l of Inl e \<Rightarrow> Inl e | Inr (ys, s) \<Rightarrow> Inr (stories @ ys, s))"
  by (auto simp: parse_line_def Let_def split: list.splits sum.splits)

lemma parse_loop_stories:
  "parse_loop b (stories, story) ls =
     (case parse_loop b ([], story) ls of Inl e \<Rightarrow> Inl e | Inr (ys, s) \<Rightarrow> Inr (stories @ ys, s))"
proof (induction ls arbitrary: stories story)
  case Nil
  then show ?case by simp
next
  case (Cons l ls)
  show ?case
  proof (cases "parse_line b ([], story) l")
    case (Inl e)
    then show ?thesis
      using parse_line_stories [of b stories story l] by simp
  next
    case (Inr st)
    obtain ys s where st: "st = (ys, s)" by (cases st) auto
    have 1: "parse_line b (stories, story) l = Inr (stories @ ys, s)"
      using parse_line_stories [of b stories story l] Inr st by simp
    show ?thesis
      using Cons.IH [of "stories @ ys" s] Cons.IH [of ys s]
      by (simp add: 1 Inr st split: sum.splits prod.splits)
  qed
qed

lemma parse_line_reset:
  assumes "split_space1 (strip l) = [nid_s, line]" and "py_int nid_s = Inr 1"
  shows "parse_line b (stories, story) l = parse_line b (stories, []) l"
  using assms by (simp add: parse_line_def cong: list.case_cong sum.case_cong)

text \<open>
  Claim C7. A line whose id is 1 is processed on the empty buffer, whatever the buffer
  held. So the examples of a stream are those of the lines before such a line followed
  by those of the stream that starts at it: what is emitted at or after the line does
  not depend on any line before it.
\<close>

theorem story_reset_at_line_one:
  assumes l: "split_space1 (strip l) = [nid_s, line]" and nid: "py_int nid_s = Inr 1"
  shows "parse_line b (stories, story) l = parse_line b (stories, []) l \<and>
     parse_stories (pre @ l # post) b =
       (case parse_stories pre b of
          Inl e \<Rightarrow> Inl e
        | Inr xs \<Rightarrow> (case parse_stories (l # post) b of Inl e \<Rightarrow> Inl e | Inr ys \<Rightarrow> Inr (xs @ ys)))"
proof
  show "parse_line b (stories, story) l = parse_line b (stories, []) l"
    using l nid by (rule parse_line_reset)
next
  show "parse_stories (pre @ l # post) b =
       (case parse_stories pre b of
          Inl e \<Rightarrow> Inl e
        | Inr xs \<Rightarrow> (case parse_stories (l # post) b of Inl e \<Rightarrow> Inl e | Inr ys \<Rightarrow> Inr (xs @ ys)))"
  proof (cases "parse_loop b ([], []) pre")
    case (Inl e)
    then show ?thesis
      by (simp add: parse_stories_def parse_loop_append)
  next
    case (Inr st)
    obtain xs s where st: "st = (xs, s)" by (cases st) auto
    have "parse_loop b (xs, s) (l # post) = parse_loop b (xs, []) (l # post)"
      using parse_line_reset [OF l nid, of b xs s] by simp
    also have "\<dots> = (case parse_loop b ([], []) (l # post) of
                       Inl e \<Rightarrow> Inl e | Inr (ys, s') \<Rightarrow> Inr (xs @ ys, s'))"
      by (rule parse_loop_stories)
    finally show ?thesis
      by (simp add: parse_stories_def parse_loop_append Inr st split: sum.splits prod.splits)
  qed
qed

theorem story_reset_at_line_one_witness:
  "parse_stories ([''1 John went home.'', ''2 Mary is here.''] @
      ''1 Mary moved to the bathroom.'' #
      [''2 Where is Mary?'' @ [CHR 0x09] @ ''bathroom'' @ [CHR 0x09] @ ''1'']) False
     = Inr [([Sentence [''Mary'', ''moved'', ''to'', ''the'', ''bathroom'', ''.'']],
             [''Where'', ''is'', ''Mary'', ''?''], ''bathroom'')]"
proof -
  have l: "split_space1 (strip ''1 Mary moved to the bathroom.'') = [''1'', ''Mary moved to the bathroom.'']"
    by code_simp
  have nid: "py_int ''1'' = Inr 1"
    by code_simp
  have pre: "parse_stories [''1 John went home.'', ''2 Mary is here.''] False = Inr []"
    by code_simp
  have post: "parse_stories (''1 Mary moved to the bathroom.'' #
      [''2 Where is Mary?'' @ [CHR 0x09] @ ''bathroom'' @ [CHR 0x09] @ ''1'']) False
     = Inr [([Sentence [''Mary'', ''moved'', ''to'', ''the'', ''bathroom'', ''.'']],
             [''Where'', ''is'', ''Mary'', ''?''], ''bathroom'')]"
    by code_simp
  from story_reset_at_line_one [OF l nid, of False "[]" "[]" "[''1 John went home.'', ''2 Mary is here.'']"
      "[''2 Where is Mary?'' @ [CHR 0x09] @ ''bathroom'' @ [CHR 0x09] @ ''1'']"]
  show ?thesis
    by (simp only: pre post sum.case append_Nil)
qed

subsection \<open>Vocabulary\<close>

lemma fold_enumerate_notin:
  "t \<notin> set ys \<Longrightarrow>
   fold (\<lambda>(i, token) d. d(token \<mapsto> int i)) (enumerate k ys) d t = d t"
  by (induction ys arbitrary: k d) auto

lemma fold_enumerate_nth:
  "distinct ys \<Longrightarrow> i < length ys \<Longrightarrow>
   fold (\<lambda>(i, token) d. d(token \<mapsto> int i)) (enumerate k ys) d (ys ! i) = Some (int (k + i))"
proof (induction ys arbitrary: k d i)
  case Nil
  then show ?case by simp
next
  case (Cons y ys)
  show ?case
  proof (cases i)
    case 0
    from Cons.prems have "y \<notin> set ys" by simp
    then have "fold (\<lambda>(i, token) d. d(token \<mapsto> int i)) (enumerate (Suc k) ys) (d(y \<mapsto> int k)) y
        = (d(y \<mapsto> int k)) y"
      by (rule fold_enumerate_notin)
    with 0 show ?thesis
      by (simp del: fun_upd_apply add: fun_upd_same)
  next
    case (Suc j)
    with Cons.prems Cons.IH [of j "Suc k"] show ?thesis
      by simp
  qed
qed

lemma get_tokenizer_unfold:
  "get_tokenizer stories =
     fold (\<lambda>(i, token) d. d(token \<mapsto> int i))
       (enumerate 1 (sorted_list_of_set (set (tokens_all stories)))) [PAD_TOKEN \<mapsto> 0]"
  by (simp add: get_tokenizer_def vocab_def sorted_list_of_set_sort_remdups)

lemma get_tokenizer_nth:
  assumes "k < length (sorted_list_of_set (set (tokens_all stories)))"
  shows "get_tokenizer stories (sorted_list_of_set (set (tokens_all stories)) ! k) = Some (int k + 1)"
  using fold_enumerate_nth [of "sorted_list_of_set (set (tokens_all stories))" k 1 "[PAD_TOKEN \<mapsto> 0]"] assms
  by (simp add: get_tokenizer_unfold)

lemma get_tokenizer_pad:
  assumes "PAD_TOKEN \<notin> set (tokens_all stories)"
  shows "get_tokenizer stories PAD_TOKEN = Some PAD_ID"
  using fold_enumerate_notin [of PAD_TOKEN "sorted_list_of_set (set (tokens_all stories))" 1 "[PAD_TOKEN \<mapsto> 0]"] assms
  by (simp add: get_tokenizer_unfold PAD_ID_def)

lemma get_tokenizer_other:
  assumes "t \<notin> set (tokens_all stories)" and "t \<noteq> PAD_TOKEN"
  shows "get_tokenizer stories t = None"
  using fold_enumerate_notin [of t "sorted_list_of_set (set (tokens_all stories))" 1 "[PAD_TOKEN \<mapsto> 0]"] assms
  by (simp add: get_tokenizer_unfold)

text \<open>
  Claim C4 (as the code has it). Let \<open>N\<close> be the number of distinct tokens of the examples
  (story sentences, queries and answers). The vocabulary gives the \<open>k\<close>-th of them in
  ascending lexicographic order the id \<open>k\<close> (counting from 1): every token has an id in
  \<open>1..N\<close>, a smaller token has a smaller id, and every id in \<open>1..N\<close> is the id of a
  token. The keys are these tokens and the pad token. The pad token has the id 0
  whenever it is not itself a token of the examples. The vocabulary depends only on the
  set of tokens.
\<close>

theorem get_tokenizer_vocabulary:
  "(PAD_TOKEN \<notin> set (tokens_all stories) \<longrightarrow> get_tokenizer stories PAD_TOKEN = Some PAD_ID) \<and>
   PAD_ID = 0 \<and>
   (\<forall>k < card (set (tokens_all stories)).
      get_tokenizer stories (sorted_list_of_set (set (tokens_all stories)) ! k) = Some (int k + 1)) \<and>
   (\<forall>s \<in> set (tokens_all stories). \<forall>t \<in> set (tokens_all stories).
      \<exists>i j. get_tokenizer stories s = Some i \<and> get_tokenizer stories t = Some j \<and>
            1 \<le> i \<and> i \<le> int (card (set (tokens_all stories))) \<and> (s < t \<longleftrightarrow> i < j)) \<and>
   (\<forall>i. 1 \<le> i \<and> i \<le> int (card (set (tokens_all stories))) \<longrightarrow>
      (\<exists>t \<in> set (tokens_all stories). get_tokenizer stories t = Some i)) \<and>
   dom (get_tokenizer stories) = insert PAD_TOKEN (set (tokens_all stories)) \<and>
   (set (tokens_all stories) = set (tokens_all stories') \<longrightarrow>
      get_tokenizer stories = get_tokenizer stories')"
proof -
  define ts where "ts = sorted_list_of_set (set (tokens_all stories))"
  have len: "length ts = card (set (tokens_all stories))"
    and set: "set ts = set (tokens_all stories)"
    and dist: "distinct ts" and sorted: "sorted ts"
    by (simp_all add: ts_def)
  have nth: "get_tokenizer stories (ts ! k) = Some (int k + 1)" if "k < length ts" for k
    using that unfolding ts_def by (rule get_tokenizer_nth)
  have 1: "PAD_TOKEN \<notin> set (tokens_all stories) \<longrightarrow> get_tokenizer stories PAD_TOKEN = Some PAD_ID"
    by (simp add: get_tokenizer_pad)
  have 2: "\<forall>k < card (set (tokens_all stories)).
      get_tokenizer stories (sorted_list_of_set (set (tokens_all stories)) ! k) = Some (int k + 1)"
    by (simp add: get_tokenizer_nth)
  have 3: "\<exists>i j. get_tokenizer stories s = Some i \<and> get_tokenizer stories t = Some j \<and>
            1 \<le> i \<and> i \<le> int (card (set (tokens_all stories))) \<and> (s < t \<longleftrightarrow> i < j)"
    if "s \<in> set (tokens_all stories)" and "t \<in> set (tokens_all stories)" for s t
  proof -
    from that set obtain a b where a: "a < length ts" "s = ts ! a" and b: "b < length ts" "t = ts ! b"
      by (metis in_set_conv_nth)
    have strict: "sorted_wrt (<) ts"
      using sorted dist by (simp add: strict_sorted_iff)
    have "s < t \<longleftrightarrow> a < b"
    proof (cases a b rule: linorder_cases)
      case less
      with strict b have "ts ! a < ts ! b" by (simp add: sorted_wrt_nth_less)
      with less a b show ?thesis by simp
    next
      case equal
      with a b show ?thesis by simp
    next
      case greater
      with strict a have "ts ! b < ts ! a" by (simp add: sorted_wrt_nth_less)
      with greater a b show ?thesis by auto
    qed
    with a b nth [of a] nth [of b] show ?thesis
      by (auto simp: len)
  qed
  have 4: "\<exists>t \<in> set (tokens_all stories). get_tokenizer stories t = Some i"
    if "1 \<le> i \<and> i \<le> int (card (set (tokens_all stories)))" for i
  proof -
    from that have k: "nat (i - 1) < length ts" unfolding len by linarith
    then have "ts ! nat (i - 1) \<in> set (tokens_all stories)"
      using set nth_mem by blast
    moreover have "get_tokenizer stories (ts ! nat (i - 1)) = Some i"
      using nth [OF k] that by simp
    ultimately show ?thesis ..
  qed
  have 5: "dom (get_tokenizer stories) = insert PAD_TOKEN (set (tokens_all stories))"
  proof (intro set_eqI iffI)
    fix t assume d: "t \<in> dom (get_tokenizer stories)"
    show "t \<in> insert PAD_TOKEN (set (tokens_all stories))"
    proof (rule ccontr)
      assume "t \<notin> insert PAD_TOKEN (set (tokens_all stories))"
      then have "t \<notin> set (tokens_all stories)" and "t \<noteq> PAD_TOKEN"
        by auto
      then have "get_tokenizer stories t = None"
        by (rule get_tokenizer_other)
      with d show False
        by auto
    qed
  next
    fix t assume t: "t \<in> insert PAD_TOKEN (set (tokens_all stories))"
    show "t \<in> dom (get_tokenizer stories)"
    proof (cases "t \<in> set (tokens_all stories)")
      case True
      with 3 [of t t] show ?thesis by auto
    next
      case False
      with t get_tokenizer_pad [of stories] show ?thesis by auto
    qed
  qed
  have 6: "set (tokens_all stories) = set (tokens_all stories') \<longrightarrow>
      get_tokenizer stories = get_tokenizer stories'"
    by (simp add: get_tokenizer_unfold)
  from 1 2 3 4 5 6 show ?thesis
    by (simp add: PAD_ID_def)
qed

theorem get_tokenizer_vocabulary_witness:
  "PAD_TOKEN \<notin> set (tokens_all [([Sentence [''b'', ''a'']], [''c''], ''a'')]) \<and>
   get_tokenizer [([Sentence [''b'', ''a'']], [''c''], ''a'')] PAD_TOKEN = Some 0 \<and>
   get_tokenizer [([Sentence [''b'', ''a'']], [''c''], ''a'')] ''a'' = Some 1 \<and>
   get_tokenizer [([Sentence [''b'', ''a'']], [''c''], ''a'')] ''b'' = Some 2 \<and>
   get_tokenizer [([Sentence [''b'', ''a'']], [''c''], ''a'')] ''c'' = Some 3 \<and>
   get_tokenizer [([Sentence [''b'', ''a'']], [''c''], ''a'')] ''d'' = None"
proof -
  have a: "PAD_TOKEN \<notin> set (tokens_all [([Sentence [''b'', ''a'']], [''c''], ''a'')])"
    by (simp add: tokens_all_def PAD_TOKEN_def)
  have "get_tokenizer [([Sentence [''b'', ''a'']], [''c''], ''a'')] PAD_TOKEN = Some 0"
    using get_tokenizer_vocabulary [of "[([Sentence [''b'', ''a'']], [''c''], ''a'')]"
        "[([Sentence [''b'', ''a'']], [''c''], ''a'')]"] a
    by simp
  moreover have "get_tokenizer [([Sentence [''b'', ''a'']], [''c''], ''a'')] ''a'' = Some 1"
    and "get_tokenizer [([Sentence [''b'', ''a'']], [''c''], ''a'')] ''b'' = Some 2"
    and "get_tokenizer [([Sentence [''b'', ''a'']], [''c''], ''a'')] ''c'' = Some 3"
    and "get_tokenizer [([Sentence [''b'', ''a'']], [''c''], ''a'')] ''d'' = None"
    by code_simp+
  ultimately show ?thesis
    using a by simp
qed

text \<open>
  The line \<^verbatim>\<open>1 _PAD moved.\<close> has the token \<^verbatim>\<open>_PAD\<close>. In \<open>vocab\<close> it stands at index 0 and
  again at index 4, and the later pair of the dict comprehension wins: the pad token
  has the id 4, not 0.
\<close>

theorem get_tokenizer_pad_counterexample:
  "parse_stories [''1 _PAD moved.'', ''2 Where?'' @ [CHR 0x09] @ ''b'' @ [CHR 0x09] @ ''1''] False
     = Inr [([Sentence [''_PAD'', ''moved'', ''.'']], [''Where'', ''?''], ''b'')] \<and>
   get_tokenizer [([Sentence [''_PAD'', ''moved'', ''.'']], [''Where'', ''?''], ''b'')] PAD_TOKEN
     = Some 4"
  by code_simp

end
